theory Spec2Isabelle
  imports Main "HOL-Library.Char_ord" "HOL-Library.List_Lexorder"
begin

section \<open>The key-value table\<close>

text \<open>
  The table created by \<^verbatim>\<open>init\<close> in \<^verbatim>\<open>src/lib/storage-adapter.ts\<close>:
  \<^verbatim>\<open>
  CREATE TABLE IF NOT EXISTS kv_storage (
    key TEXT PRIMARY KEY,
    value TEXT,
    created_at INTEGER DEFAULT 0,
    updated_at INTEGER DEFAULT 0
  );
  \<close>
  A row is a record of its four columns; the table is the list of its rows. The column
  \<^verbatim>\<open>value\<close> is called \<open>val\<close> here. Every row the adapter reads is typed
  \<^verbatim>\<open>{ key: string; value: string }\<close> in the source, so both are strings (byte
  strings, as the engine stores and compares TEXT).
\<close>

record row =
  key :: string
  val :: string
  created_at :: int
  updated_at :: int

type_synonym table = "row list"

text \<open>The PRIMARY KEY constraint on the column \<^verbatim>\<open>key\<close>: no two rows share a key.\<close>

definition primary_key :: "table \<Rightarrow> bool" where
  "primary_key t = distinct (map key t)"

section \<open>The statements the adapter sends\<close>

text \<open>
  Each SQL statement of the source is a function on the table.

  \<^verbatim>\<open>SELECT value FROM kv_storage WHERE key = ?\<close>, read with
  \<^verbatim>\<open>getFirstAsync\<close>: the first matching row, or null.
\<close>

definition select_where_key :: "string \<Rightarrow> table \<Rightarrow> row option" where
  "select_where_key k t = find (\<lambda>r. key r = k) t"

text \<open>
  \<^verbatim>\<open>
  INSERT INTO kv_storage (key, value, updated_at) VALUES (?, ?, ?)
  ON CONFLICT(key) DO UPDATE SET value = excluded.value, updated_at = excluded.updated_at
  \<close>
  The column list of the INSERT has no \<^verbatim>\<open>created_at\<close>, so a new row takes the
  column's default, 0; on a conflict only \<^verbatim>\<open>value\<close> and \<^verbatim>\<open>updated_at\<close>
  of the existing row are assigned.
\<close>

fun upsert :: "string \<Rightarrow> string \<Rightarrow> int \<Rightarrow> table \<Rightarrow> table" where
  "upsert k v now [] = [\<lparr>key = k, val = v, created_at = 0, updated_at = now\<rparr>]"
| "upsert k v now (r # t) =
     (if key r = k then r\<lparr>val := v, updated_at := now\<rparr> # t
      else r # upsert k v now t)"

text \<open>\<^verbatim>\<open>DELETE FROM kv_storage WHERE key = ?\<close>\<close>

definition delete_where_key :: "string \<Rightarrow> table \<Rightarrow> table" where
  "delete_where_key k t = filter (\<lambda>r. key r \<noteq> k) t"

text \<open>\<^verbatim>\<open>SELECT key, value FROM kv_storage WHERE key IN (?,...,?)\<close>\<close>

definition select_where_key_in :: "string list \<Rightarrow> table \<Rightarrow> row list" where
  "select_where_key_in ks t = filter (\<lambda>r. key r \<in> set ks) t"

text \<open>\<^verbatim>\<open>DELETE FROM kv_storage WHERE key IN (?,...,?)\<close>\<close>

definition delete_where_key_in :: "string list \<Rightarrow> table \<Rightarrow> table" where
  "delete_where_key_in ks t = filter (\<lambda>r. key r \<notin> set ks) t"

text \<open>
  \<^verbatim>\<open>SELECT key FROM kv_storage ORDER BY key\<close>: the keys in the order of the
  engine's default collation, which compares the bytes of the two texts.
\<close>

definition select_key_order_by_key :: "table \<Rightarrow> string list" where
  "select_key_order_by_key t = sort (map key t)"

text \<open>\<^verbatim>\<open>DELETE FROM kv_storage\<close>\<close>

definition delete_all :: "table \<Rightarrow> table" where
  "delete_all t = []"

text \<open>\<^verbatim>\<open>SELECT COUNT(*) as count FROM kv_storage\<close>: always one row, the count.\<close>

definition select_count :: "table \<Rightarrow> nat option" where
  "select_count t = Some (length t)"

section \<open>The adapter\<close>

text \<open>
  The faults: the one \<^verbatim>\<open>ensureReady\<close> throws, the one \<^verbatim>\<open>init\<close> throws when the
  driver hands back no database, and whatever the driver itself throws.
\<close>

datatype error = NotInitialized | OpenReturnedNull | DriverFault

datatype SQLiteDatabase = Database string

text \<open>
  The two fields of \<^verbatim>\<open>SQLiteStorageAdapter\<close>, and the table in the database file,
  which outlives the handle.
\<close>

record state =
  db :: "SQLiteDatabase option"
  ready :: bool
  kv_storage :: table

text \<open>The singleton as the module creates it, over a database file holding \<open>t\<close>.\<close>

definition sqliteStorage :: "table \<Rightarrow> state" where
  "sqliteStorage t = \<lparr>db = None, ready = False, kv_storage = t\<rparr>"

text \<open>
  What the driver does at a call is an argument of the model. For \<^verbatim>\<open>init\<close>:
  \<^verbatim>\<open>openDatabaseAsync\<close> throws, or returns null, or returns a handle and
  \<^verbatim>\<open>execAsync\<close> throws, or both succeed. CREATE TABLE IF NOT EXISTS keeps the rows
  of a table that is already there.
\<close>

datatype init_outcome = OpenThrows | OpenNull | ExecThrows | InitOk

definition init :: "init_outcome \<Rightarrow> state \<Rightarrow> (error + unit) \<times> state" where
  "init f s =
     (case f of
        OpenThrows \<Rightarrow> (Inl DriverFault, s)
      | OpenNull \<Rightarrow> (Inl OpenReturnedNull, s\<lparr>db := None\<rparr>)
      | ExecThrows \<Rightarrow> (Inl DriverFault, s\<lparr>db := Some (Database ''instantdb-storage.db'')\<rparr>)
      | InitOk \<Rightarrow>
          (Inr (), s\<lparr>db := Some (Database ''instantdb-storage.db''), ready := True\<rparr>))"

definition ensureReady :: "state \<Rightarrow> error + unit" where
  "ensureReady s = (if \<not> ready s \<or> db s = None then Inl NotInitialized else Inr ())"

text \<open>
  A driver call either throws (\<open>fault\<close>) or runs its statement. A statement that throws
  changes nothing: the engine runs each statement atomically.
\<close>

definition getFirstAsync :: "bool \<Rightarrow> (table \<Rightarrow> 'a option) \<Rightarrow> table \<Rightarrow> error + 'a option" where
  "getFirstAsync fault q t = (if fault then Inl DriverFault else Inr (q t))"

definition getAllAsync :: "bool \<Rightarrow> (table \<Rightarrow> 'a list) \<Rightarrow> table \<Rightarrow> error + 'a list" where
  "getAllAsync fault q t = (if fault then Inl DriverFault else Inr (q t))"

definition runAsync :: "bool \<Rightarrow> (table \<Rightarrow> table) \<Rightarrow> table \<Rightarrow> error option \<times> table" where
  "runAsync fault stmt t = (if fault then (Some DriverFault, t) else (None, stmt t))"

text \<open>
  \<^verbatim>\<open>getItem\<close>: the guard is outside the try block, so its fault reaches the caller;
  a fault of the driver is caught, logged, and null is returned.
\<close>

definition getItem :: "bool \<Rightarrow> string \<Rightarrow> state \<Rightarrow> (error + string option) \<times> state" where
  "getItem fault k s =
     (case ensureReady s of
        Inl e \<Rightarrow> (Inl e, s)
      | Inr _ \<Rightarrow>
          (case getFirstAsync fault (select_where_key k) (kv_storage s) of
             Inl e \<Rightarrow> (Inr None, s)
           | Inr result \<Rightarrow>
               (Inr (case result of Some r \<Rightarrow> Some (val r) | None \<Rightarrow> None), s)))"

text \<open>
  \<^verbatim>\<open>setItem\<close>: \<open>ms\<close> is what \<^verbatim>\<open>Date.now()\<close> returns, in milliseconds;
  \<^verbatim>\<open>Math.floor(Date.now() / 1000)\<close> is the integer division, which rounds down.
  A fault of the driver is logged and thrown again.
\<close>

definition setItem :: "bool \<Rightarrow> int \<Rightarrow> string \<Rightarrow> string \<Rightarrow> state \<Rightarrow> (error + unit) \<times> state" where
  "setItem fault ms k v s =
     (case ensureReady s of
        Inl e \<Rightarrow> (Inl e, s)
      | Inr _ \<Rightarrow>
          (let now = ms div 1000 in
           case runAsync fault (upsert k v now) (kv_storage s) of
             (Some e, t) \<Rightarrow> (Inl e, s\<lparr>kv_storage := t\<rparr>)
           | (None, t) \<Rightarrow> (Inr (), s\<lparr>kv_storage := t\<rparr>)))"

definition removeItem :: "bool \<Rightarrow> string \<Rightarrow> state \<Rightarrow> (error + unit) \<times> state" where
  "removeItem fault k s =
     (case ensureReady s of
        Inl e \<Rightarrow> (Inl e, s)
      | Inr _ \<Rightarrow>
          (case runAsync fault (delete_where_key k) (kv_storage s) of
             (Some e, t) \<Rightarrow> (Inl e, s\<lparr>kv_storage := t\<rparr>)
           | (None, t) \<Rightarrow> (Inr (), s\<lparr>kv_storage := t\<rparr>)))"

text \<open>
  \<^verbatim>\<open>multiGet\<close>. \<^verbatim>\<open>new Map(results.map(r => [r.key, r.value]))\<close> keeps, for a key
  that occurs twice, the later entry. \<^verbatim>\<open>resultMap.get(key) || null\<close> is null when the
  key is not in the map (undefined) and also when the value found is falsy; the one
  falsy string is the empty string.
\<close>

definition resultMap :: "row list \<Rightarrow> string \<Rightarrow> string option" where
  "resultMap results = map_of (rev (map (\<lambda>r. (key r, val r)) results))"

definition or_null :: "string option \<Rightarrow> string option" where
  "or_null x = (case x of None \<Rightarrow> None | Some v \<Rightarrow> if v = [] then None else Some v)"

definition multiGet ::
  "bool \<Rightarrow> string list \<Rightarrow> state \<Rightarrow> (error + (string \<times> string option) list) \<times> state" where
  "multiGet fault ks s =
     (case ensureReady s of
        Inl e \<Rightarrow> (Inl e, s)
      | Inr _ \<Rightarrow>
          (case getAllAsync fault (select_where_key_in ks) (kv_storage s) of
             Inl e \<Rightarrow> (Inr (map (\<lambda>k. (k, None)) ks), s)
           | Inr results \<Rightarrow>
               (Inr (map (\<lambda>k. (k, or_null (resultMap results k))) ks), s)))"

text \<open>
  \<^verbatim>\<open>multiSet\<close>. The loop awaits one upsert per pair, all with the one \<open>now\<close> taken
  before the transaction; the first statement that throws ends the loop, with the rows
  of the earlier pairs already written. \<open>fails i\<close> says whether the driver throws at the
  statement of the pair at index \<open>i\<close>.
\<close>

fun upsert_loop ::
  "(nat \<Rightarrow> bool) \<Rightarrow> nat \<Rightarrow> int \<Rightarrow> (string \<times> string) list \<Rightarrow> table \<Rightarrow> error option \<times> table" where
  "upsert_loop fails i now [] t = (None, t)"
| "upsert_loop fails i now ((k, v) # ps) t =
     (case runAsync (fails i) (upsert k v now) t of
        (Some e, t') \<Rightarrow> (Some e, t')
      | (None, t') \<Rightarrow> upsert_loop fails (Suc i) now ps t')"

text \<open>
  Modelled from the spec: \<^verbatim>\<open>withTransactionAsync(task)\<close> is a function of the database
  driver (the package expo-sqlite) and its code is not in this repository. The spec calls
  what it gives \<^verbatim>\<open>multiSet\<close> "one all-or-nothing unit of work" and "one transactional
  unit". The model is the driver's documented behaviour, which is that: BEGIN, the task,
  COMMIT, and when any of the three throws, ROLLBACK and the same fault thrown again.
  ROLLBACK puts the table back as it was at BEGIN. \<open>f\<close> says whether BEGIN or COMMIT
  throws; whether the task throws is the task's own result.
\<close>

datatype txn_outcome = BeginThrows | CommitThrows | TxnRuns

definition withTransactionAsync ::
  "txn_outcome \<Rightarrow> (table \<Rightarrow> error option \<times> table) \<Rightarrow> table \<Rightarrow> error option \<times> table" where
  "withTransactionAsync f task t =
     (case f of
        BeginThrows \<Rightarrow> (Some DriverFault, t)
      | _ \<Rightarrow>
          (case task t of
             (Some e, t') \<Rightarrow> (Some e, t)
           | (None, t') \<Rightarrow>
               (if f = CommitThrows then (Some DriverFault, t) else (None, t'))))"

definition multiSet ::
  "txn_outcome \<Rightarrow> (nat \<Rightarrow> bool) \<Rightarrow> int \<Rightarrow> (string \<times> string) list \<Rightarrow> state
     \<Rightarrow> (error + unit) \<times> state" where
  "multiSet f fails ms keyValuePairs s =
     (case ensureReady s of
        Inl e \<Rightarrow> (Inl e, s)
      | Inr _ \<Rightarrow>
          (let now = ms div 1000 in
           case withTransactionAsync f (upsert_loop fails 0 now keyValuePairs) (kv_storage s) of
             (Some e, t) \<Rightarrow> (Inl e, s\<lparr>kv_storage := t\<rparr>)
           | (None, t) \<Rightarrow> (Inr (), s\<lparr>kv_storage := t\<rparr>)))"

definition multiRemove :: "bool \<Rightarrow> string list \<Rightarrow> state \<Rightarrow> (error + unit) \<times> state" where
  "multiRemove fault ks s =
     (case ensureReady s of
        Inl e \<Rightarrow> (Inl e, s)
      | Inr _ \<Rightarrow>
          (case runAsync fault (delete_where_key_in ks) (kv_storage s) of
             (Some e, t) \<Rightarrow> (Inl e, s\<lparr>kv_storage := t\<rparr>)
           | (None, t) \<Rightarrow> (Inr (), s\<lparr>kv_storage := t\<rparr>)))"

definition getAllKeys :: "bool \<Rightarrow> state \<Rightarrow> (error + string list) \<times> state" where
  "getAllKeys fault s =
     (case ensureReady s of
        Inl e \<Rightarrow> (Inl e, s)
      | Inr _ \<Rightarrow>
          (case getAllAsync fault select_key_order_by_key (kv_storage s) of
             Inl e \<Rightarrow> (Inr [], s)
           | Inr results \<Rightarrow> (Inr results, s)))"

definition clear :: "bool \<Rightarrow> state \<Rightarrow> (error + unit) \<times> state" where
  "clear fault s =
     (case ensureReady s of
        Inl e \<Rightarrow> (Inl e, s)
      | Inr _ \<Rightarrow>
          (case runAsync fault delete_all (kv_storage s) of
             (Some e, t) \<Rightarrow> (Inl e, s\<lparr>kv_storage := t\<rparr>)
           | (None, t) \<Rightarrow> (Inr (), s\<lparr>kv_storage := t\<rparr>)))"

definition getStorageSize :: "bool \<Rightarrow> state \<Rightarrow> (error + nat) \<times> state" where
  "getStorageSize fault s =
     (case ensureReady s of
        Inl e \<Rightarrow> (Inl e, s)
      | Inr _ \<Rightarrow>
          (case getFirstAsync fault select_count (kv_storage s) of
             Inl e \<Rightarrow> (Inr 0, s)
           | Inr result \<Rightarrow> (Inr (case result of Some c \<Rightarrow> c | None \<Rightarrow> 0), s)))"

section \<open>Sequences of calls\<close>

text \<open>
  One call of the adapter, with what the driver does at that call and, for the two
  writes, what \<^verbatim>\<open>Date.now()\<close> returns. The caller awaits each call before it
  issues the next, so a history of the adapter is a list of calls.
\<close>

datatype call =
    Init init_outcome
  | GetItem bool string
  | SetItem bool int string string
  | RemoveItem bool string
  | MultiGet bool "string list"
  | MultiSet txn_outcome "nat \<Rightarrow> bool" int "(string \<times> string) list"
  | MultiRemove bool "string list"
  | GetAllKeys bool
  | Clear bool
  | GetStorageSize bool

fun exec :: "call \<Rightarrow> state \<Rightarrow> state" where
  "exec (Init f) s = snd (init f s)"
| "exec (GetItem fault k) s = snd (getItem fault k s)"
| "exec (SetItem fault ms k v) s = snd (setItem fault ms k v s)"
| "exec (RemoveItem fault k) s = snd (removeItem fault k s)"
| "exec (MultiGet fault ks) s = snd (multiGet fault ks s)"
| "exec (MultiSet f fails ms ps) s = snd (multiSet f fails ms ps s)"
| "exec (MultiRemove fault ks) s = snd (multiRemove fault ks s)"
| "exec (GetAllKeys fault) s = snd (getAllKeys fault s)"
| "exec (Clear fault) s = snd (clear fault s)"
| "exec (GetStorageSize fault) s = snd (getStorageSize fault s)"

definition run :: "call list \<Rightarrow> state \<Rightarrow> state" where
  "run cs s = fold exec cs s"

text \<open>Whether a call is a write of the key \<open>k\<close>, and whether it is a remove of it.\<close>

fun writes_key :: "string \<Rightarrow> call \<Rightarrow> bool" where
  "writes_key k (SetItem fault ms k' v) = (k' = k)"
| "writes_key k (MultiSet f fails ms ps) = (k \<in> set (map fst ps))"
| "writes_key k c = False"

fun removes_key :: "string \<Rightarrow> call \<Rightarrow> bool" where
  "removes_key k (RemoveItem fault k') = (k' = k)"
| "removes_key k (MultiRemove fault ks) = (k \<in> set ks)"
| "removes_key k (Clear fault) = True"
| "removes_key k c = False"

section \<open>The readiness guard\<close>

lemma ensureReady_not_ready: "\<not> ready s \<Longrightarrow> ensureReady s = Inl NotInitialized"
  by (simp add: ensureReady_def)

lemma ensureReady_ok:
  "ensureReady s = Inr () \<longleftrightarrow> ready s \<and> db s \<noteq> None"
  by (simp add: ensureReady_def)

lemma init_ok_ready: "ensureReady (snd (init InitOk s)) = Inr ()"
  by (simp add: init_def ensureReady_def)

lemma init_failed_keeps_ready:
  "f \<noteq> InitOk \<Longrightarrow> ready (snd (init f s)) = ready s"
  by (cases f) (simp_all add: init_def)

lemma select_upsert_present:
  "select_where_key k t = Some r \<Longrightarrow>
     select_where_key k (upsert k v now t) = Some (r\<lparr>val := v, updated_at := now\<rparr>)"
  by (induction t) (auto simp: select_where_key_def)

lemma select_upsert_absent:
  "select_where_key k t = None \<Longrightarrow>
     select_where_key k (upsert k v now t)
       = Some \<lparr>key = k, val = v, created_at = 0, updated_at = now\<rparr>"
  by (induction t) (auto simp: select_where_key_def)

lemma select_upsert_other:
  "k' \<noteq> k \<Longrightarrow> select_where_key k' (upsert k v now t) = select_where_key k' t"
  by (induction t) (auto simp: select_where_key_def)

lemma select_upsert_val:
  "map_option val (select_where_key k (upsert k v now t)) = Some v"
  by (cases "select_where_key k t") (simp_all add: select_upsert_present select_upsert_absent)

lemma select_None_iff: "select_where_key k t = None \<longleftrightarrow> k \<notin> key ` set t"
  by (auto simp: select_where_key_def find_None_iff)

lemma select_Some_key: "select_where_key k t = Some r \<Longrightarrow> key r = k \<and> r \<in> set t"
  by (auto simp: select_where_key_def find_Some_iff)

lemma keys_upsert:
  "map key (upsert k v now t) = (if k \<in> key ` set t then map key t else map key t @ [k])"
  by (induction t) auto

lemma primary_key_upsert: "primary_key t \<Longrightarrow> primary_key (upsert k v now t)"
  by (simp add: primary_key_def keys_upsert)

lemma length_upsert:
  "length (upsert k v now t) = (if k \<in> key ` set t then length t else Suc (length t))"
  using arg_cong [OF keys_upsert, of length k v now t] by (simp split: if_splits)

lemma primary_key_filter: "primary_key t \<Longrightarrow> primary_key (filter P t)"
  by (simp add: primary_key_def distinct_map_filter)

lemma upsert_loop_fault:
  "j < length ps \<Longrightarrow> fails (i + j) \<Longrightarrow> fst (upsert_loop fails i now ps t) = Some DriverFault"
proof (induction ps arbitrary: i j t)
  case Nil
  then show ?case by simp
next
  case (Cons p ps)
  obtain k v where p: "p = (k, v)" by (cases p)
  show ?case
  proof (cases "fails i")
    case True
    then show ?thesis by (simp add: p runAsync_def)
  next
    case False
    with Cons.prems obtain j' where j': "j = Suc j'" by (cases j) auto
    with Cons.prems have "j' < length ps" "fails (Suc i + j')" by simp_all
    from Cons.IH [OF this] False show ?thesis by (simp add: p runAsync_def)
  qed
qed

lemma upsert_loop_ok:
  "(\<forall>j < length ps. \<not> fails (i + j)) \<Longrightarrow>
     upsert_loop fails i now ps t = (None, fold (\<lambda>(k, v). upsert k v now) ps t)"
proof (induction ps arbitrary: i t)
  case Nil
  then show ?case by simp
next
  case (Cons p ps)
  obtain k v where p: "p = (k, v)" by (cases p)
  from Cons.prems have f: "\<not> fails i" by force
  have "\<forall>j<length ps. \<not> fails (Suc i + j)"
  proof (intro allI impI)
    fix j assume "j < length ps"
    then have "Suc j < length (p # ps)" by simp
    with Cons.prems have "\<not> fails (i + Suc j)" by blast
    then show "\<not> fails (Suc i + j)" by simp
  qed
  from Cons.IH [OF this] f show ?case by (simp add: p runAsync_def)
qed


lemma select_filter:
  "P k \<Longrightarrow> select_where_key k (filter (\<lambda>r. P (key r)) t) = select_where_key k t"
  by (induction t) (auto simp: select_where_key_def)

lemma select_filter_absent:
  "select_where_key k t = None \<Longrightarrow> select_where_key k (filter P t) = None"
  by (auto simp: select_None_iff)

lemma upsert_loop_other:
  "k \<notin> fst ` set ps \<Longrightarrow>
     select_where_key k (snd (upsert_loop fails i now ps t)) = select_where_key k t"
proof (induction ps arbitrary: i t)
  case Nil
  then show ?case by simp
next
  case (Cons p ps)
  obtain k' v where p: "p = (k', v)" by (cases p)
  with Cons.prems have ne: "k \<noteq> k'" and "k \<notin> fst ` set ps" by auto
  from Cons.IH [OF this(2)] ne show ?case
    by (simp add: p runAsync_def select_upsert_other)
qed

lemma withTransactionAsync_cases:
  "snd (withTransactionAsync f task t) = t \<or> snd (withTransactionAsync f task t) = snd (task t)"
  by (cases f; cases "task t"; cases "fst (task t)") (auto simp: withTransactionAsync_def)

lemma getItem_ready:
  "ensureReady s = Inr () \<Longrightarrow>
     getItem fault k s
       = (Inr (if fault then None else map_option val (select_where_key k (kv_storage s))), s)"
  by (simp add: getItem_def getFirstAsync_def split: option.splits)

lemma setItem_ready:
  "ensureReady s = Inr () \<Longrightarrow>
     setItem fault ms k v s
       = (if fault then (Inl DriverFault, s)
          else (Inr (), s\<lparr>kv_storage := upsert k v (ms div 1000) (kv_storage s)\<rparr>))"
  by (simp add: setItem_def runAsync_def)

lemma removeItem_ready:
  "ensureReady s = Inr () \<Longrightarrow>
     removeItem fault k s
       = (if fault then (Inl DriverFault, s)
          else (Inr (), s\<lparr>kv_storage := delete_where_key k (kv_storage s)\<rparr>))"
  by (simp add: removeItem_def runAsync_def)

lemma multiRemove_ready:
  "ensureReady s = Inr () \<Longrightarrow>
     multiRemove fault ks s
       = (if fault then (Inl DriverFault, s)
          else (Inr (), s\<lparr>kv_storage := delete_where_key_in ks (kv_storage s)\<rparr>))"
  by (simp add: multiRemove_def runAsync_def)

lemma clear_ready:
  "ensureReady s = Inr () \<Longrightarrow>
     clear fault s
       = (if fault then (Inl DriverFault, s) else (Inr (), s\<lparr>kv_storage := []\<rparr>))"
  by (simp add: clear_def runAsync_def delete_all_def)

lemma multiGet_ready:
  "ensureReady s = Inr () \<Longrightarrow>
     multiGet fault ks s
       = (Inr (map (\<lambda>k. (k, if fault then None
                            else or_null (resultMap (select_where_key_in ks (kv_storage s)) k))) ks), s)"
  by (simp add: multiGet_def getAllAsync_def)

lemma getAllKeys_ready:
  "ensureReady s = Inr () \<Longrightarrow>
     getAllKeys fault s = (Inr (if fault then [] else sort (map key (kv_storage s))), s)"
  by (simp add: getAllKeys_def getAllAsync_def select_key_order_by_key_def)

lemma getStorageSize_ready:
  "ensureReady s = Inr () \<Longrightarrow>
     getStorageSize fault s = (Inr (if fault then 0 else length (kv_storage s)), s)"
  by (simp add: getStorageSize_def getFirstAsync_def select_count_def)

lemma multiSet_ready:
  "ensureReady s = Inr () \<Longrightarrow>
     multiSet f fails ms ps s
       = (case withTransactionAsync f (upsert_loop fails 0 (ms div 1000) ps) (kv_storage s) of
            (Some e, t) \<Rightarrow> (Inl e, s\<lparr>kv_storage := t\<rparr>)
          | (None, t) \<Rightarrow> (Inr (), s\<lparr>kv_storage := t\<rparr>))"
  by (simp add: multiSet_def)

lemma kv_storage_multiSet:
  "kv_storage (snd (multiSet f fails ms ps s)) = kv_storage s
   \<or> kv_storage (snd (multiSet f fails ms ps s))
       = snd (upsert_loop fails 0 (ms div 1000) ps (kv_storage s))"
  using withTransactionAsync_cases [of f "upsert_loop fails 0 (ms div 1000) ps" "kv_storage s"]
  by (auto simp: multiSet_def split: sum.splits prod.splits option.splits)

lemma db_ready_exec_not_init:
  "\<forall>f. c \<noteq> Init f \<Longrightarrow> db (exec c s) = db s \<and> ready (exec c s) = ready s"
  by (cases c)
    (auto simp: getItem_def setItem_def removeItem_def multiGet_def multiSet_def multiRemove_def
      getAllKeys_def clear_def getStorageSize_def
      split: sum.splits prod.splits option.splits)

lemma kv_storage_reads:
  "kv_storage (snd (init f s)) = kv_storage s"
  "kv_storage (snd (getItem fault k s)) = kv_storage s"
  "kv_storage (snd (multiGet fault ks s)) = kv_storage s"
  "kv_storage (snd (getAllKeys fault s)) = kv_storage s"
  "kv_storage (snd (getStorageSize fault s)) = kv_storage s"
  by (auto simp: init_def getItem_def multiGet_def getAllKeys_def getStorageSize_def
      split: sum.splits init_outcome.splits)

lemma kv_storage_writes:
  "kv_storage (snd (setItem fault ms k v s)) = kv_storage s
   \<or> kv_storage (snd (setItem fault ms k v s)) = upsert k v (ms div 1000) (kv_storage s)"
  "kv_storage (snd (removeItem fault k s)) = kv_storage s
   \<or> kv_storage (snd (removeItem fault k s)) = delete_where_key k (kv_storage s)"
  "kv_storage (snd (multiRemove fault ks s)) = kv_storage s
   \<or> kv_storage (snd (multiRemove fault ks s)) = delete_where_key_in ks (kv_storage s)"
  "kv_storage (snd (clear fault s)) = kv_storage s \<or> kv_storage (snd (clear fault s)) = []"
  by (auto simp: setItem_def removeItem_def multiRemove_def clear_def runAsync_def delete_all_def
      split: sum.splits)

lemma exec_keeps_row:
  assumes "\<not> writes_key k c" and "\<not> removes_key k c"
  shows "select_where_key k (kv_storage (exec c s)) = select_where_key k (kv_storage s)"
proof (cases c)
  case (SetItem fault ms k' v)
  with assms have "k \<noteq> k'" by simp
  with kv_storage_writes(1) [of fault ms k' v s] show ?thesis
    unfolding SetItem exec.simps by (auto simp: select_upsert_other)
next
  case (RemoveItem fault k')
  with assms have "k \<noteq> k'" by simp
  then have "select_where_key k (delete_where_key k' (kv_storage s))
      = select_where_key k (kv_storage s)"
    unfolding delete_where_key_def by (intro select_filter [where P = "\<lambda>x. x \<noteq> k'"]) simp
  with kv_storage_writes(2) [of fault k' s] show ?thesis
    unfolding RemoveItem exec.simps by auto
next
  case (MultiRemove fault ks)
  with assms have "k \<notin> set ks" by simp
  then have "select_where_key k (delete_where_key_in ks (kv_storage s))
      = select_where_key k (kv_storage s)"
    unfolding delete_where_key_in_def by (intro select_filter [where P = "\<lambda>x. x \<notin> set ks"]) simp
  with kv_storage_writes(3) [of fault ks s] show ?thesis
    unfolding MultiRemove exec.simps by auto
next
  case (MultiSet f fails ms ps)
  with assms have "k \<notin> fst ` set ps" by simp
  from upsert_loop_other [OF this] kv_storage_multiSet [of f fails ms ps s] show ?thesis
    unfolding MultiSet exec.simps by auto
next
  case (Clear fault)
  with assms show ?thesis by simp
qed (simp_all add: kv_storage_reads)

lemma run_keeps_row:
  "\<forall>c \<in> set cs. \<not> writes_key k c \<and> \<not> removes_key k c \<Longrightarrow>
     select_where_key k (kv_storage (run cs s)) = select_where_key k (kv_storage s)"
  unfolding run_def by (induction cs arbitrary: s) (simp_all add: exec_keeps_row)


lemma exec_keeps_absent:
  assumes "\<not> writes_key k c" and "select_where_key k (kv_storage s) = None"
  shows "select_where_key k (kv_storage (exec c s)) = None"
proof (cases c)
  case (RemoveItem fault k')
  from kv_storage_writes(2) [of fault k' s] assms(2) show ?thesis
    unfolding RemoveItem exec.simps delete_where_key_def by (auto simp: select_filter_absent)
next
  case (MultiRemove fault ks)
  from kv_storage_writes(3) [of fault ks s] assms(2) show ?thesis
    unfolding MultiRemove exec.simps delete_where_key_in_def by (auto simp: select_filter_absent)
next
  case (Clear fault)
  from kv_storage_writes(4) [of fault s] assms(2) show ?thesis
    unfolding Clear exec.simps by (auto simp: select_where_key_def)
next
  case (SetItem fault ms k' v)
  with assms(1) have "\<not> removes_key k c" by simp
  from exec_keeps_row [OF assms(1) this] assms(2) show ?thesis by simp
next
  case (MultiSet f fails ms ps)
  then have "\<not> removes_key k c" by simp
  from exec_keeps_row [OF assms(1) this] assms(2) show ?thesis by simp
qed (simp_all add: kv_storage_reads assms(2))

lemma run_keeps_absent:
  "\<forall>c \<in> set cs. \<not> writes_key k c \<Longrightarrow> select_where_key k (kv_storage s) = None \<Longrightarrow>
     select_where_key k (kv_storage (run cs s)) = None"
  unfolding run_def by (induction cs arbitrary: s) (simp_all add: exec_keeps_absent)

lemma ensureReady_setItem:
  "ensureReady (snd (setItem fault ms k v s)) = ensureReady s"
  by (simp add: ensureReady_def setItem_def runAsync_def split: sum.splits)

lemma resultMap_absent:
  "k \<notin> key ` set t \<Longrightarrow> resultMap (select_where_key_in ks t) k = None"
  by (auto simp: resultMap_def select_where_key_in_def map_of_eq_None_iff image_iff)

lemma count_rows_primary_key: "primary_key t \<Longrightarrow> length t = card (key ` set t)"
  using distinct_card [of "map key t"] by (simp add: primary_key_def)

section \<open>What every call preserves\<close>

lemmas adapter_defs =
  sqliteStorage_def init_def ensureReady_def getFirstAsync_def getAllAsync_def runAsync_def
  getItem_def setItem_def removeItem_def multiGet_def multiSet_def multiRemove_def
  getAllKeys_def clear_def getStorageSize_def withTransactionAsync_def run_def
  select_where_key_def delete_where_key_def select_where_key_in_def delete_where_key_in_def
  select_key_order_by_key_def delete_all_def select_count_def resultMap_def or_null_def
  primary_key_def

lemma upsert_loop_preserves:
  assumes "\<And>k v t. Q t \<Longrightarrow> Q (upsert k v now t)" and "Q t"
  shows "Q (snd (upsert_loop fails i now ps t))"
  using assms(2)
proof (induction ps arbitrary: i t)
  case Nil
  then show ?case by simp
next
  case (Cons p ps)
  obtain k v where p: "p = (k, v)" by (cases p)
  show ?case
  proof (cases "fails i")
    case True
    with Cons.prems show ?thesis by (simp add: p runAsync_def)
  next
    case False
    from Cons.prems have "Q (upsert k v now t)" by (rule assms(1))
    from Cons.IH [OF this] False show ?thesis by (simp add: p runAsync_def)
  qed
qed

lemma exec_preserves:
  assumes up: "\<And>k v now t. Q t \<Longrightarrow> Q (upsert k v now t)"
    and fi: "\<And>P t. Q t \<Longrightarrow> Q (filter P t)"
    and s: "Q (kv_storage s)"
  shows "Q (kv_storage (exec c s))"
proof (cases c)
  case (SetItem fault ms k v)
  from kv_storage_writes(1) [of fault ms k v s] up [OF s] s show ?thesis
    unfolding SetItem exec.simps by auto
next
  case (RemoveItem fault k)
  from kv_storage_writes(2) [of fault k s] fi [OF s] s show ?thesis
    unfolding RemoveItem exec.simps delete_where_key_def by auto
next
  case (MultiRemove fault ks)
  from kv_storage_writes(3) [of fault ks s] fi [OF s] s show ?thesis
    unfolding MultiRemove exec.simps delete_where_key_in_def by auto
next
  case (Clear fault)
  from fi [OF s, of "\<lambda>r. False"] have "Q []" by simp
  with kv_storage_writes(4) [of fault s] s show ?thesis
    unfolding Clear exec.simps by auto
next
  case (MultiSet f fails ms ps)
  have "Q (snd (upsert_loop fails 0 (ms div 1000) ps (kv_storage s)))"
    using up s by (rule upsert_loop_preserves)
  with kv_storage_multiSet [of f fails ms ps s] s show ?thesis
    unfolding MultiSet exec.simps by auto
qed (simp_all add: kv_storage_reads s)

lemma run_preserves:
  assumes "\<And>k v now t. Q t \<Longrightarrow> Q (upsert k v now t)"
    and "\<And>P t. Q t \<Longrightarrow> Q (filter P t)"
    and "Q (kv_storage s)"
  shows "Q (kv_storage (run cs s))"
  using assms(3) unfolding run_def
proof (induction cs arbitrary: s)
  case Nil
  then show ?case by simp
next
  case (Cons c cs)
  have "Q (kv_storage (exec c s))"
    using assms(1,2) Cons.prems by (rule exec_preserves [where Q = Q])
  from Cons.IH [OF this] show ?case by simp
qed

lemma primary_key_run:
  "primary_key (kv_storage s) \<Longrightarrow> primary_key (kv_storage (run cs s))"
  by (rule run_preserves [of primary_key]) (simp_all add: primary_key_upsert primary_key_filter)

lemma created_at_upsert:
  "\<forall>r \<in> set t. created_at r = 0 \<Longrightarrow> \<forall>r \<in> set (upsert k v now t). created_at r = 0"
  by (induction t) auto

lemma created_at_run:
  assumes "\<forall>r \<in> set (kv_storage s). created_at r = 0"
  shows "\<forall>r \<in> set (kv_storage (run cs s)). created_at r = 0"
proof (rule run_preserves [where Q = "\<lambda>t. \<forall>r \<in> set t. created_at r = 0"])
  show "\<forall>r \<in> set (upsert k v now t). created_at r = 0" if "\<forall>r \<in> set t. created_at r = 0"
    for k v now t
    using that by (rule created_at_upsert)
  show "\<forall>r \<in> set (filter P t). created_at r = 0" if "\<forall>r \<in> set t. created_at r = 0"
    for P and t :: table
    using that by simp
  show "\<forall>r \<in> set (kv_storage s). created_at r = 0"
    by (rule assms)
qed

lemma setItem_timestamps:
  assumes "ensureReady s = Inr ()"
  shows "select_where_key k (kv_storage (snd (setItem False ms k v s)))
     = Some (case select_where_key k (kv_storage s) of
               None \<Rightarrow> \<lparr>key = k, val = v, created_at = 0, updated_at = ms div 1000\<rparr>
             | Some r \<Rightarrow> r\<lparr>val := v, updated_at := ms div 1000\<rparr>)"
  using assms
  by (cases "select_where_key k (kv_storage s)")
    (simp_all add: setItem_ready select_upsert_absent select_upsert_present)

lemma map_of_select_in:
  "k \<in> set ks \<Longrightarrow>
     map_of (map (\<lambda>r. (key r, val r)) (select_where_key_in ks t)) k
       = map_option val (select_where_key k t)"
  by (induction t) (auto simp: select_where_key_in_def select_where_key_def)

lemma resultMap_select:
  assumes "primary_key t" and "k \<in> set ks"
  shows "resultMap (select_where_key_in ks t) k = map_option val (select_where_key k t)"
proof -
  let ?xs = "map (\<lambda>r. (key r, val r)) (select_where_key_in ks t)"
  have "map fst ?xs = map key (filter (\<lambda>r. key r \<in> set ks) t)"
    by (simp add: select_where_key_in_def comp_def)
  with assms(1) have d: "distinct (map fst ?xs)"
    by (simp add: primary_key_def distinct_map_filter)
  then have "distinct (map fst (rev ?xs))"
    by (simp add: rev_map [symmetric])
  with d have "map_of (rev ?xs) = map_of ?xs"
    by (simp add: map_of_inject_set)
  with map_of_select_in [OF assms(2)] show ?thesis
    by (simp add: resultMap_def)
qed

lemma multiGet_values:
  assumes "ensureReady s = Inr ()" and "primary_key (kv_storage s)"
  shows "multiGet False ks s
     = (Inr (map (\<lambda>k. (k, or_null (map_option val (select_where_key k (kv_storage s))))) ks), s)"
  using assms by (simp add: multiGet_ready resultMap_select)

lemma multiGet_after_setItem:
  assumes "ensureReady s = Inr ()" and "primary_key (kv_storage s)" and "i < length ks"
    and "ks ! i = k"
  shows "\<exists>ps. fst (multiGet False ks (snd (setItem False ms k v s))) = Inr ps
     \<and> ps ! i = (k, if v = [] then None else Some v)"
proof -
  let ?s1 = "snd (setItem False ms k v s)"
  have kv: "kv_storage ?s1 = upsert k v (ms div 1000) (kv_storage s)"
    using assms(1) by (simp add: setItem_ready)
  have r: "ensureReady ?s1 = Inr ()"
    using assms(1) by (simp add: ensureReady_setItem)
  have p: "primary_key (kv_storage ?s1)"
    using assms(2) by (simp add: kv primary_key_upsert)
  have "or_null (map_option val (select_where_key k (kv_storage ?s1)))
      = (if v = [] then None else Some v)"
    by (simp add: kv select_upsert_val or_null_def)
  with assms(3,4) show ?thesis
    by (simp add: multiGet_values [OF r p])
qed

lemma fold_upsert_last:
  "map_of (rev ps) k = Some v \<Longrightarrow>
     map_option val (select_where_key k (fold (\<lambda>(k, v). upsert k v now) ps t)) = Some v"
proof (induction ps rule: rev_induct)
  case Nil
  then show ?case by simp
next
  case (snoc p ps)
  obtain k' v' where p: "p = (k', v')" by (cases p)
  show ?case
  proof (cases "k' = k")
    case True
    with snoc.prems have "v' = v" by (simp add: p)
    with True show ?thesis by (simp add: p select_upsert_val)
  next
    case False
    with snoc.prems have "map_of (rev ps) k = Some v" by (simp add: p)
    from snoc.IH [OF this] False show ?thesis by (simp add: p select_upsert_other)
  qed
qed

lemma multiSet_ok:
  assumes "ensureReady s = Inr ()" and "\<forall>i < length ps. \<not> fails i"
  shows "multiSet TxnRuns fails ms ps s
     = (Inr (), s\<lparr>kv_storage := fold (\<lambda>(k, v). upsert k v (ms div 1000)) ps (kv_storage s)\<rparr>)"
proof -
  have "upsert_loop fails 0 (ms div 1000) ps (kv_storage s)
      = (None, fold (\<lambda>(k, v). upsert k v (ms div 1000)) ps (kv_storage s))"
    using assms(2) by (intro upsert_loop_ok) simp
  with assms(1) show ?thesis
    by (simp add: multiSet_ready withTransactionAsync_def)
qed

lemma upsert_loop_error:
  "fst (upsert_loop fails i now ps t) = None
   \<or> fst (upsert_loop fails i now ps t) = Some DriverFault"
proof (induction ps arbitrary: i t)
  case Nil
  then show ?case by simp
next
  case (Cons p ps)
  obtain k v where p: "p = (k, v)" by (cases p)
  show ?case
  proof (cases "fails i")
    case True
    then show ?thesis by (simp add: p runAsync_def)
  next
    case False
    with Cons.IH [of "Suc i" "upsert k v now t"] show ?thesis
      by (simp add: p runAsync_def)
  qed
qed

lemma multiSet_txn_fault:
  assumes "ensureReady s = Inr ()" and "f \<noteq> TxnRuns"
  shows "multiSet f fails ms ps s = (Inl DriverFault, s)"
proof (cases f)
  case BeginThrows
  with assms(1) show ?thesis
    by (simp add: multiSet_ready withTransactionAsync_def)
next
  case CommitThrows
  obtain e t' where l: "upsert_loop fails 0 (ms div 1000) ps (kv_storage s) = (e, t')"
    by (cases "upsert_loop fails 0 (ms div 1000) ps (kv_storage s)")
  with upsert_loop_error [of fails 0 "ms div 1000" ps "kv_storage s"]
  have "e = None \<or> e = Some DriverFault" by simp
  with l assms(1) CommitThrows show ?thesis
    by (auto simp: multiSet_ready withTransactionAsync_def)
next
  case TxnRuns
  with assms(2) show ?thesis by simp
qed

lemma primary_key_fold_upsert:
  "primary_key t \<Longrightarrow> primary_key (fold (\<lambda>(k, v). upsert k v now) ps t)"
  by (induction ps arbitrary: t) (auto simp: primary_key_upsert)

lemma ensureReady_kv_storage_update:
  "ensureReady (s\<lparr>kv_storage := t\<rparr>) = ensureReady s"
  by (simp add: ensureReady_def)

lemma multiGet_after_multiSet:
  assumes "ensureReady s = Inr ()" and "primary_key (kv_storage s)"
    and "\<forall>j < length ps. \<not> fails j" and "map_of (rev ps) k = Some v"
    and "i < length ks" and "ks ! i = k"
  shows "\<exists>qs. fst (multiGet False ks (snd (multiSet TxnRuns fails ms ps s))) = Inr qs
     \<and> qs ! i = (k, if v = [] then None else Some v)"
proof -
  let ?t1 = "fold (\<lambda>(k, v). upsert k v (ms div 1000)) ps (kv_storage s)"
  let ?s1 = "s\<lparr>kv_storage := ?t1\<rparr>"
  have s1: "snd (multiSet TxnRuns fails ms ps s) = ?s1"
    using assms(1,3) by (simp add: multiSet_ok)
  have r: "ensureReady ?s1 = Inr ()"
    using assms(1) by (simp add: ensureReady_kv_storage_update)
  have p: "primary_key (kv_storage ?s1)"
    using assms(2) by (simp add: primary_key_fold_upsert)
  have kv: "kv_storage ?s1 = ?t1"
    by simp
  have "map_option val (select_where_key k ?t1) = Some v"
    using assms(4) by (rule fold_upsert_last)
  then have "or_null (map_option val (select_where_key k (kv_storage ?s1))) = or_null (Some v)"
    by (simp only: kv)
  then have "or_null (map_option val (select_where_key k (kv_storage ?s1)))
      = (if v = [] then None else Some v)"
    by (simp add: or_null_def)
  with assms(5,6) show ?thesis
    unfolding s1 by (simp add: multiGet_values [OF r p])
qed

lemma getStorageSize_reachable:
  assumes "primary_key t" and "ensureReady (run cs (sqliteStorage t)) = Inr ()"
  shows "fst (getStorageSize False (run cs (sqliteStorage t)))
     = Inr (card (key ` set (kv_storage (run cs (sqliteStorage t)))))"
proof -
  have "primary_key (kv_storage (sqliteStorage t))"
    using assms(1) by (simp add: sqliteStorage_def)
  then have "primary_key (kv_storage (run cs (sqliteStorage t)))"
    by (rule primary_key_run)
  then show ?thesis
    by (simp add: getStorageSize_ready [OF assms(2)] count_rows_primary_key)
qed

section \<open>The claims\<close>

text \<open>
  C1. On an initialised adapter, \<^verbatim>\<open>setItem(k, v)\<close> at which the driver does not fail
  returns normally, and a later \<^verbatim>\<open>getItem(k)\<close> at which the driver does not fail
  returns \<open>v\<close>, for every key and value, whatever calls \<open>cs\<close> come in between as
  long as none of them writes or removes \<open>k\<close> and the adapter is still initialised
  afterwards. With \<open>cs = []\<close> this is \<^verbatim>\<open>getItem\<close> right after \<^verbatim>\<open>setItem\<close>.
\<close>

theorem C1_setItem_then_getItem:
  assumes "ensureReady s = Inr ()"
    and "\<forall>c \<in> set cs. \<not> writes_key k c \<and> \<not> removes_key k c"
    and "ensureReady (run cs (snd (setItem False ms k v s))) = Inr ()"
  shows "fst (setItem False ms k v s) = Inr ()
    \<and> getItem False k (run cs (snd (setItem False ms k v s)))
        = (Inr (Some v), run cs (snd (setItem False ms k v s)))"
proof -
  let ?s1 = "snd (setItem False ms k v s)"
  have s1: "setItem False ms k v s
      = (Inr (), s\<lparr>kv_storage := upsert k v (ms div 1000) (kv_storage s)\<rparr>)"
    using assms(1) by (simp add: setItem_ready)
  have "map_option val (select_where_key k (kv_storage (run cs ?s1)))
      = map_option val (select_where_key k (kv_storage ?s1))"
    using assms(2) by (simp add: run_keeps_row)
  also have "\<dots> = Some v"
    by (simp add: s1 select_upsert_val)
  finally have "getItem False k (run cs ?s1) = (Inr (Some v), run cs ?s1)"
    using assms(3) by (simp add: getItem_ready)
  with s1 show ?thesis by simp
qed

theorem C1_setItem_then_getItem_witness:
  "ensureReady (snd (init InitOk (sqliteStorage []))) = Inr ()
   \<and> list_all (\<lambda>c. \<not> writes_key ''a'' c \<and> \<not> removes_key ''a'' c)
        [GetItem False ''b'', SetItem False 1700000001000 ''b'' ''y'', RemoveItem False ''c'']
   \<and> ensureReady (run [GetItem False ''b'', SetItem False 1700000001000 ''b'' ''y'', RemoveItem False ''c'']
        (snd (setItem False 1700000000000 ''a'' ''x'' (snd (init InitOk (sqliteStorage [])))))) = Inr ()
   \<and> fst (setItem False 1700000000000 ''a'' ''x'' (snd (init InitOk (sqliteStorage [])))) = Inr ()
   \<and> fst (getItem False ''a''
        (run [GetItem False ''b'', SetItem False 1700000001000 ''b'' ''y'', RemoveItem False ''c'']
          (snd (setItem False 1700000000000 ''a'' ''x'' (snd (init InitOk (sqliteStorage [])))))))
       = Inr (Some ''x'')"
proof -
  let ?s = "snd (init InitOk (sqliteStorage []))"
  let ?cs = "[GetItem False ''b'', SetItem False 1700000001000 ''b'' ''y'', RemoveItem False ''c'']"
  have h1: "ensureReady ?s = Inr ()"
    by (simp add: adapter_defs)
  have h2: "\<forall>c \<in> set ?cs. \<not> writes_key ''a'' c \<and> \<not> removes_key ''a'' c"
    by simp
  have h3: "ensureReady (run ?cs (snd (setItem False 1700000000000 ''a'' ''x'' ?s))) = Inr ()"
    by (simp add: adapter_defs)
  from C1_setItem_then_getItem [OF h1 h2 h3] h1 h2 h3 show ?thesis
    by simp
qed

text \<open>
  C2. \<^verbatim>\<open>multiSet\<close> is all-or-nothing. On an initialised adapter, when the driver fails
  at the statement of some pair of the batch (the pair at an index \<open>i\<close> below the length
  of the batch), \<^verbatim>\<open>multiSet\<close> throws the fault and the state after the call is the
  state before it: the rows that the loop wrote for the earlier pairs are rolled back with
  the transaction.
\<close>

theorem C2_multiSet_all_or_nothing:
  assumes "ensureReady s = Inr ()" and "i < length ps" and "fails i"
  shows "multiSet f fails ms ps s = (Inl DriverFault, s)"
proof -
  let ?task = "upsert_loop fails 0 (ms div 1000) ps"
  have "fst (?task (kv_storage s)) = Some DriverFault"
    using upsert_loop_fault [of i ps fails 0] assms(2,3) by simp
  then obtain t' where "?task (kv_storage s) = (Some DriverFault, t')"
    by (cases "?task (kv_storage s)") simp
  then have "withTransactionAsync f ?task (kv_storage s) = (Some DriverFault, kv_storage s)"
    by (cases f) (simp_all add: withTransactionAsync_def)
  with assms(1) show ?thesis by (simp add: multiSet_ready)
qed

theorem C2_multiSet_all_or_nothing_witness:
  "ensureReady (snd (init InitOk (sqliteStorage []))) = Inr ()
   \<and> (1::nat) < length [(''a'', ''x''), (''b'', ''y'')]
   \<and> (\<lambda>i. i = (1::nat)) 1
   \<and> fst (upsert_loop (\<lambda>i. i = 1) 0 1700000000 [(''a'', ''x''), (''b'', ''y'')] [])
       = Some DriverFault
   \<and> snd (upsert_loop (\<lambda>i. i = 1) 0 1700000000 [(''a'', ''x''), (''b'', ''y'')] [])
       = [\<lparr>key = ''a'', val = ''x'', created_at = 0, updated_at = 1700000000\<rparr>]
   \<and> multiSet TxnRuns (\<lambda>i. i = 1) 1700000000000 [(''a'', ''x''), (''b'', ''y'')]
        (snd (init InitOk (sqliteStorage [])))
       = (Inl DriverFault, snd (init InitOk (sqliteStorage [])))"
proof -
  let ?s = "snd (init InitOk (sqliteStorage []))"
  have h1: "ensureReady ?s = Inr ()"
    by (simp add: adapter_defs)
  have h2: "(1::nat) < length [(''a'', ''x''), (''b'', ''y'')]"
    by simp
  have h3: "(\<lambda>i. i = (1::nat)) 1"
    by simp
  have loop: "upsert_loop (\<lambda>i. i = 1) 0 1700000000 [(''a'', ''x''), (''b'', ''y'')] []
      = (Some DriverFault, [\<lparr>key = ''a'', val = ''x'', created_at = 0, updated_at = 1700000000\<rparr>])"
    by (simp add: runAsync_def)
  from C2_multiSet_all_or_nothing [of ?s 1 "[(''a'', ''x''), (''b'', ''y'')]" "\<lambda>i. i = 1"
      TxnRuns 1700000000000, OF h1 h2 h3] h1 loop
  show ?thesis by simp
qed

text \<open>
  C3. Before \<^verbatim>\<open>init\<close> has completed the flag \<open>ready\<close> is still false. In such a state
  each of the nine operations, whatever its arguments and whatever the driver would do,
  ends with the precondition fault \<open>NotInitialized\<close> as its result (it is thrown to the
  caller, not caught) and leaves the state, the stored table included, as it was.
\<close>

theorem C3_before_init_raises:
  "\<not> ready s \<Longrightarrow>
     getItem fault k s = (Inl NotInitialized, s)
   \<and> setItem fault ms k v s = (Inl NotInitialized, s)
   \<and> removeItem fault k s = (Inl NotInitialized, s)
   \<and> multiGet fault ks s = (Inl NotInitialized, s)
   \<and> multiSet f fails ms ps s = (Inl NotInitialized, s)
   \<and> multiRemove fault ks s = (Inl NotInitialized, s)
   \<and> getAllKeys fault s = (Inl NotInitialized, s)
   \<and> clear fault s = (Inl NotInitialized, s)
   \<and> getStorageSize fault s = (Inl NotInitialized, s)"
  by (simp add: ensureReady_not_ready getItem_def setItem_def removeItem_def multiGet_def
      multiSet_def multiRemove_def getAllKeys_def clear_def getStorageSize_def)

theorem C3_before_init_raises_witness:
  "\<not> ready (sqliteStorage [])
   \<and> getItem False ''a'' (sqliteStorage []) = (Inl NotInitialized, sqliteStorage [])
   \<and> setItem False 1700000000000 ''a'' ''x'' (sqliteStorage [])
       = (Inl NotInitialized, sqliteStorage [])
   \<and> removeItem False ''a'' (sqliteStorage []) = (Inl NotInitialized, sqliteStorage [])
   \<and> multiGet False [''a''] (sqliteStorage []) = (Inl NotInitialized, sqliteStorage [])
   \<and> multiSet TxnRuns (\<lambda>i. False) 1700000000000 [(''a'', ''x'')] (sqliteStorage [])
       = (Inl NotInitialized, sqliteStorage [])
   \<and> multiRemove False [''a''] (sqliteStorage []) = (Inl NotInitialized, sqliteStorage [])
   \<and> getAllKeys False (sqliteStorage []) = (Inl NotInitialized, sqliteStorage [])
   \<and> clear False (sqliteStorage []) = (Inl NotInitialized, sqliteStorage [])
   \<and> getStorageSize False (sqliteStorage []) = (Inl NotInitialized, sqliteStorage [])"
proof -
  have h: "\<not> ready (sqliteStorage [])"
    by (simp add: sqliteStorage_def)
  show ?thesis
    using h C3_before_init_raises [OF h, of False "''a''" 1700000000000 "''x''" "[''a'']"
        TxnRuns "\<lambda>i. False" "[(''a'', ''x'')]"]
    by simp
qed

text \<open>
  C4. What \<^verbatim>\<open>setItem\<close> or \<^verbatim>\<open>multiSet\<close> wrote is to come back from \<^verbatim>\<open>multiGet\<close>,
  the empty string included. The code evaluated at the empty string: after
  \<^verbatim>\<open>setItem("k", "")\<close> on a fresh initialised adapter, \<^verbatim>\<open>getItem("k")\<close> returns the
  empty string, and \<^verbatim>\<open>multiGet(["k"])\<close> returns the pair \<open>("k", null)\<close>; the same after
  \<^verbatim>\<open>multiSet([["k", ""]])\<close>. The lemmas \<open>multiGet_after_setItem\<close> and
  \<open>multiGet_after_multiSet\<close> above give the general picture: the pair is \<open>(k, v)\<close> for
  every other value.
\<close>

theorem C4_multiGet_loses_empty_string:
  "fst (setItem False 1700000000000 ''k'' '''' (snd (init InitOk (sqliteStorage [])))) = Inr ()
   \<and> fst (getItem False ''k''
        (run [Init InitOk, SetItem False 1700000000000 ''k'' ''''] (sqliteStorage [])))
       = Inr (Some '''')
   \<and> fst (multiGet False [''k'']
        (run [Init InitOk, SetItem False 1700000000000 ''k'' ''''] (sqliteStorage [])))
       = Inr [(''k'', None)]
   \<and> fst (multiSet TxnRuns (\<lambda>i. False) 1700000000000 [(''k'', '''')]
        (snd (init InitOk (sqliteStorage [])))) = Inr ()
   \<and> fst (multiGet False [''k'']
        (run [Init InitOk, MultiSet TxnRuns (\<lambda>i. False) 1700000000000 [(''k'', '''')]]
          (sqliteStorage [])))
       = Inr [(''k'', None)]"
  by (simp add: adapter_defs)

text \<open>
  C5. \<^verbatim>\<open>created_at\<close> is to be the unix-seconds time of the record's creation, and
  \<^verbatim>\<open>updated_at\<close> that of its last write. The code evaluated at a first
  \<^verbatim>\<open>setItem("k", "v")\<close> when \<^verbatim>\<open>Date.now()\<close> is 1700000000000: the new row has
  \<open>updated_at = 1700000000\<close> and \<open>created_at = 0\<close>, and a second write a minute later
  refreshes \<open>updated_at\<close> and leaves \<open>created_at\<close> at 0; the same for a row created by
  \<^verbatim>\<open>multiSet\<close>. By \<open>created_at_run\<close> above, no call ever stores another value there.
\<close>

theorem C5_created_at_stays_default:
  "kv_storage (run [Init InitOk, SetItem False 1700000000000 ''k'' ''v''] (sqliteStorage []))
     = [\<lparr>key = ''k'', val = ''v'', created_at = 0, updated_at = 1700000000\<rparr>]
   \<and> kv_storage (run [Init InitOk, SetItem False 1700000000000 ''k'' ''v'',
                      SetItem False 1700000060000 ''k'' ''w''] (sqliteStorage []))
     = [\<lparr>key = ''k'', val = ''w'', created_at = 0, updated_at = 1700000060\<rparr>]
   \<and> kv_storage (run [Init InitOk,
                      MultiSet TxnRuns (\<lambda>i. False) 1700000000000 [(''k'', ''v'')]]
                   (sqliteStorage []))
     = [\<lparr>key = ''k'', val = ''v'', created_at = 0, updated_at = 1700000000\<rparr>]"
  by (simp add: adapter_defs)

text \<open>
  C6. The error policies, on an initialised adapter at a call where the driver fails:
  \<^verbatim>\<open>getItem\<close> returns null and \<^verbatim>\<open>multiGet\<close> returns the pair \<open>(k, null)\<close> for every
  input key, neither raising; \<^verbatim>\<open>setItem\<close>, \<^verbatim>\<open>removeItem\<close>, \<^verbatim>\<open>multiRemove\<close> and
  \<^verbatim>\<open>clear\<close> throw the driver's fault to the caller. The state is unchanged in all six.
\<close>

theorem C6_error_policies:
  assumes "ensureReady s = Inr ()"
  shows "getItem True k s = (Inr None, s)
    \<and> multiGet True ks s = (Inr (map (\<lambda>k. (k, None)) ks), s)
    \<and> setItem True ms k v s = (Inl DriverFault, s)
    \<and> removeItem True k s = (Inl DriverFault, s)
    \<and> multiRemove True ks s = (Inl DriverFault, s)
    \<and> clear True s = (Inl DriverFault, s)"
  using assms
  by (simp add: getItem_ready multiGet_ready setItem_ready removeItem_ready multiRemove_ready
      clear_ready)

theorem C6_error_policies_witness:
  "ensureReady (snd (init InitOk (sqliteStorage
       [\<lparr>key = ''a'', val = ''x'', created_at = 0, updated_at = 5\<rparr>]))) = Inr ()
   \<and> fst (getItem True ''a'' (snd (init InitOk (sqliteStorage
       [\<lparr>key = ''a'', val = ''x'', created_at = 0, updated_at = 5\<rparr>])))) = Inr None
   \<and> fst (multiGet True [''a'', ''b''] (snd (init InitOk (sqliteStorage
       [\<lparr>key = ''a'', val = ''x'', created_at = 0, updated_at = 5\<rparr>]))))
       = Inr [(''a'', None), (''b'', None)]
   \<and> fst (setItem True 1700000000000 ''a'' ''y'' (snd (init InitOk (sqliteStorage
       [\<lparr>key = ''a'', val = ''x'', created_at = 0, updated_at = 5\<rparr>])))) = Inl DriverFault
   \<and> fst (removeItem True ''a'' (snd (init InitOk (sqliteStorage
       [\<lparr>key = ''a'', val = ''x'', created_at = 0, updated_at = 5\<rparr>])))) = Inl DriverFault
   \<and> fst (multiRemove True [''a'', ''b''] (snd (init InitOk (sqliteStorage
       [\<lparr>key = ''a'', val = ''x'', created_at = 0, updated_at = 5\<rparr>])))) = Inl DriverFault
   \<and> fst (clear True (snd (init InitOk (sqliteStorage
       [\<lparr>key = ''a'', val = ''x'', created_at = 0, updated_at = 5\<rparr>])))) = Inl DriverFault"
proof -
  let ?s = "snd (init InitOk (sqliteStorage
      [\<lparr>key = ''a'', val = ''x'', created_at = 0, updated_at = 5\<rparr>]))"
  have h: "ensureReady ?s = Inr ()"
    by (simp add: adapter_defs)
  from C6_error_policies [OF h, of "''a''" "[''a'', ''b'']" 1700000000000 "''y''"] h
  show ?thesis by simp
qed

text \<open>
  C7. On an initialised adapter, \<^verbatim>\<open>multiGet\<close> of the keys \<open>ks\<close> returns, whether the
  driver fails or not, a list of exactly as many pairs as there are input keys, whose
  first components are the input keys in the input order; at the position of a key with
  no stored row the pair is \<open>(key, null)\<close>.
\<close>

theorem C7_multiGet_keeps_input_order:
  assumes "ensureReady s = Inr ()"
  shows "\<exists>ps. multiGet fault ks s = (Inr ps, s)
      \<and> length ps = length ks
      \<and> map fst ps = ks
      \<and> (\<forall>i < length ks. ks ! i \<notin> key ` set (kv_storage s) \<longrightarrow> ps ! i = (ks ! i, None))"
proof -
  let ?ps = "map (\<lambda>k. (k, if fault then None
      else or_null (resultMap (select_where_key_in ks (kv_storage s)) k))) ks"
  have "multiGet fault ks s = (Inr ?ps, s)"
    using assms by (rule multiGet_ready)
  moreover have "length ?ps = length ks"
    by simp
  moreover have "map fst ?ps = ks"
    by (simp add: comp_def)
  moreover have "\<forall>i < length ks. ks ! i \<notin> key ` set (kv_storage s) \<longrightarrow> ?ps ! i = (ks ! i, None)"
    by (simp add: resultMap_absent or_null_def)
  ultimately show ?thesis by blast
qed

theorem C7_multiGet_keeps_input_order_witness:
  "ensureReady (snd (init InitOk (sqliteStorage
       [\<lparr>key = ''b'', val = ''x'', created_at = 0, updated_at = 5\<rparr>]))) = Inr ()
   \<and> (\<exists>ps. multiGet False [''c'', ''b'', ''a'', ''b''] (snd (init InitOk (sqliteStorage
              [\<lparr>key = ''b'', val = ''x'', created_at = 0, updated_at = 5\<rparr>])))
            = (Inr ps, snd (init InitOk (sqliteStorage
              [\<lparr>key = ''b'', val = ''x'', created_at = 0, updated_at = 5\<rparr>])))
        \<and> length ps = length [''c'', ''b'', ''a'', ''b'']
        \<and> map fst ps = [''c'', ''b'', ''a'', ''b'']
        \<and> (\<forall>i < length [''c'', ''b'', ''a'', ''b''].
              [''c'', ''b'', ''a'', ''b''] ! i
                \<notin> key ` set (kv_storage (snd (init InitOk (sqliteStorage
                    [\<lparr>key = ''b'', val = ''x'', created_at = 0, updated_at = 5\<rparr>]))))
              \<longrightarrow> ps ! i = ([''c'', ''b'', ''a'', ''b''] ! i, None)))
   \<and> fst (multiGet False [''c'', ''b'', ''a'', ''b''] (snd (init InitOk (sqliteStorage
              [\<lparr>key = ''b'', val = ''x'', created_at = 0, updated_at = 5\<rparr>]))))
       = Inr [(''c'', None), (''b'', Some ''x''), (''a'', None), (''b'', Some ''x'')]"
proof -
  let ?s = "snd (init InitOk (sqliteStorage
      [\<lparr>key = ''b'', val = ''x'', created_at = 0, updated_at = 5\<rparr>]))"
  let ?ks = "[''c'', ''b'', ''a'', ''b'']"
  have h: "ensureReady ?s = Inr ()"
    by (simp add: adapter_defs)
  note e = C7_multiGet_keeps_input_order [OF h, of False ?ks]
  have v: "fst (multiGet False ?ks ?s)
      = Inr [(''c'', None), (''b'', Some ''x''), (''a'', None), (''b'', Some ''x'')]"
    by (simp add: adapter_defs)
  from h e v show ?thesis
    by (intro conjI)
qed

text \<open>
  C8. A key never written reads as absent. Start from the adapter as the module creates
  it, over a database file with no row for \<open>k\<close>, and let any calls \<open>cs\<close> follow (among
  them the \<^verbatim>\<open>init\<close>), none of which is a \<^verbatim>\<open>setItem\<close> of \<open>k\<close> or a \<^verbatim>\<open>multiSet\<close> with
  a pair for \<open>k\<close>. If the adapter is then initialised, \<^verbatim>\<open>getItem(k)\<close> returns null and
  raises nothing, whether the driver fails at that read or not.
\<close>

theorem C8_getItem_never_written:
  assumes "k \<notin> key ` set t"
    and "\<forall>c \<in> set cs. \<not> writes_key k c"
    and "ensureReady (run cs (sqliteStorage t)) = Inr ()"
  shows "getItem fault k (run cs (sqliteStorage t)) = (Inr None, run cs (sqliteStorage t))"
proof -
  have "select_where_key k (kv_storage (sqliteStorage t)) = None"
    using assms(1) by (simp add: sqliteStorage_def select_None_iff)
  with assms(2) have "select_where_key k (kv_storage (run cs (sqliteStorage t))) = None"
    by (rule run_keeps_absent)
  with assms(3) show ?thesis by (simp add: getItem_ready)
qed

theorem C8_getItem_never_written_witness:
  "''a'' \<notin> key ` set [\<lparr>key = ''b'', val = ''x'', created_at = 0, updated_at = 5\<rparr>]
   \<and> list_all (\<lambda>c. \<not> writes_key ''a'' c)
        [Init InitOk, SetItem False 1700000000000 ''c'' ''z'', RemoveItem False ''a'',
         MultiSet TxnRuns (\<lambda>i. False) 1700000001000 [(''b'', ''y'')]]
   \<and> ensureReady (run [Init InitOk, SetItem False 1700000000000 ''c'' ''z'', RemoveItem False ''a'',
                   MultiSet TxnRuns (\<lambda>i. False) 1700000001000 [(''b'', ''y'')]]
        (sqliteStorage [\<lparr>key = ''b'', val = ''x'', created_at = 0, updated_at = 5\<rparr>])) = Inr ()
   \<and> fst (getItem False ''a''
        (run [Init InitOk, SetItem False 1700000000000 ''c'' ''z'', RemoveItem False ''a'',
              MultiSet TxnRuns (\<lambda>i. False) 1700000001000 [(''b'', ''y'')]]
          (sqliteStorage [\<lparr>key = ''b'', val = ''x'', created_at = 0, updated_at = 5\<rparr>])))
       = Inr None"
proof -
  let ?t = "[\<lparr>key = ''b'', val = ''x'', created_at = 0, updated_at = 5\<rparr>]"
  let ?cs = "[Init InitOk, SetItem False 1700000000000 ''c'' ''z'', RemoveItem False ''a'',
      MultiSet TxnRuns (\<lambda>i. False) 1700000001000 [(''b'', ''y'')]]"
  have h1: "''a'' \<notin> key ` set ?t"
    by simp
  have h2: "\<forall>c \<in> set ?cs. \<not> writes_key ''a'' c"
    by simp
  have h3: "ensureReady (run ?cs (sqliteStorage ?t)) = Inr ()"
    by (simp add: adapter_defs)
  from C8_getItem_never_written [OF h1 h2 h3, of False] h1 h2 h3 show ?thesis
    by simp
qed

text \<open>
  C9. On an initialised adapter whose table satisfies its PRIMARY KEY constraint,
  \<^verbatim>\<open>getStorageSize\<close> (the driver not failing) returns the number of distinct keys
  stored. After a \<^verbatim>\<open>setItem\<close> the size is that number again when the key already had a
  row, and one more when the key is fresh.
\<close>

theorem C9_getStorageSize_counts_keys:
  assumes "ensureReady s = Inr ()" and "primary_key (kv_storage s)"
  shows "getStorageSize False s = (Inr (card (key ` set (kv_storage s))), s)
    \<and> fst (getStorageSize False (snd (setItem False ms k v s)))
        = Inr (card (key ` set (kv_storage s))
               + (if k \<in> key ` set (kv_storage s) then 0 else 1))"
proof -
  have "getStorageSize False s = (Inr (card (key ` set (kv_storage s))), s)"
    using assms by (simp add: getStorageSize_ready count_rows_primary_key)
  moreover have "fst (getStorageSize False (snd (setItem False ms k v s)))
      = Inr (card (key ` set (kv_storage s)) + (if k \<in> key ` set (kv_storage s) then 0 else 1))"
  proof -
    let ?s1 = "snd (setItem False ms k v s)"
    have r: "ensureReady ?s1 = Inr ()"
      using assms(1) by (simp add: ensureReady_setItem)
    have "kv_storage ?s1 = upsert k v (ms div 1000) (kv_storage s)"
      using assms(1) by (simp add: setItem_ready)
    then have "length (kv_storage ?s1)
        = length (kv_storage s) + (if k \<in> key ` set (kv_storage s) then 0 else 1)"
      by (simp add: length_upsert)
    then have "length (kv_storage ?s1)
        = card (key ` set (kv_storage s)) + (if k \<in> key ` set (kv_storage s) then 0 else 1)"
      using assms(2) by (simp add: count_rows_primary_key)
    then show ?thesis
      by (simp add: getStorageSize_ready [OF r])
  qed
  ultimately show ?thesis by simp
qed

theorem C9_getStorageSize_counts_keys_witness:
  "ensureReady (snd (init InitOk (sqliteStorage
       [\<lparr>key = ''a'', val = ''x'', created_at = 0, updated_at = 5\<rparr>,
        \<lparr>key = ''b'', val = ''y'', created_at = 0, updated_at = 6\<rparr>]))) = Inr ()
   \<and> primary_key (kv_storage (snd (init InitOk (sqliteStorage
       [\<lparr>key = ''a'', val = ''x'', created_at = 0, updated_at = 5\<rparr>,
        \<lparr>key = ''b'', val = ''y'', created_at = 0, updated_at = 6\<rparr>]))))
   \<and> fst (getStorageSize False (snd (init InitOk (sqliteStorage
       [\<lparr>key = ''a'', val = ''x'', created_at = 0, updated_at = 5\<rparr>,
        \<lparr>key = ''b'', val = ''y'', created_at = 0, updated_at = 6\<rparr>])))) = Inr 2
   \<and> fst (getStorageSize False (snd (setItem False 1700000000000 ''a'' ''z''
       (snd (init InitOk (sqliteStorage
       [\<lparr>key = ''a'', val = ''x'', created_at = 0, updated_at = 5\<rparr>,
        \<lparr>key = ''b'', val = ''y'', created_at = 0, updated_at = 6\<rparr>])))))) = Inr 2
   \<and> fst (getStorageSize False (snd (setItem False 1700000000000 ''c'' ''z''
       (snd (init InitOk (sqliteStorage
       [\<lparr>key = ''a'', val = ''x'', created_at = 0, updated_at = 5\<rparr>,
        \<lparr>key = ''b'', val = ''y'', created_at = 0, updated_at = 6\<rparr>])))))) = Inr 3"
proof -
  let ?s = "snd (init InitOk (sqliteStorage
       [\<lparr>key = ''a'', val = ''x'', created_at = 0, updated_at = 5\<rparr>,
        \<lparr>key = ''b'', val = ''y'', created_at = 0, updated_at = 6\<rparr>]))"
  have h1: "ensureReady ?s = Inr ()"
    by (simp add: adapter_defs)
  have h2: "primary_key (kv_storage ?s)"
    by (simp add: adapter_defs)
  have kv: "key ` set (kv_storage ?s) = {''a'', ''b''}"
    by (simp add: adapter_defs)
  have c: "card {''a'', ''b''} = 2"
    by simp
  from C9_getStorageSize_counts_keys [OF h1 h2, of 1700000000000 "''a''" "''z''"]
    C9_getStorageSize_counts_keys [OF h1 h2, of 1700000000000 "''c''" "''z''"] h1 h2
  show ?thesis unfolding kv c by simp
qed

text \<open>
  C10. On an initialised adapter at a call where the driver fails, \<^verbatim>\<open>getAllKeys\<close>
  returns the empty list and \<^verbatim>\<open>getStorageSize\<close> returns 0, whatever is stored; neither
  raises.
\<close>

theorem C10_reads_swallow_faults:
  assumes "ensureReady s = Inr ()"
  shows "getAllKeys True s = (Inr [], s) \<and> getStorageSize True s = (Inr 0, s)"
  using assms by (simp add: getAllKeys_ready getStorageSize_ready)

theorem C10_reads_swallow_faults_witness:
  "ensureReady (snd (init InitOk (sqliteStorage
       [\<lparr>key = ''a'', val = ''x'', created_at = 0, updated_at = 5\<rparr>]))) = Inr ()
   \<and> fst (getAllKeys True (snd (init InitOk (sqliteStorage
       [\<lparr>key = ''a'', val = ''x'', created_at = 0, updated_at = 5\<rparr>])))) = Inr []
   \<and> fst (getStorageSize True (snd (init InitOk (sqliteStorage
       [\<lparr>key = ''a'', val = ''x'', created_at = 0, updated_at = 5\<rparr>])))) = Inr 0
   \<and> fst (getAllKeys False (snd (init InitOk (sqliteStorage
       [\<lparr>key = ''a'', val = ''x'', created_at = 0, updated_at = 5\<rparr>])))) = Inr [''a'']
   \<and> fst (getStorageSize False (snd (init InitOk (sqliteStorage
       [\<lparr>key = ''a'', val = ''x'', created_at = 0, updated_at = 5\<rparr>])))) = Inr 1"
proof -
  let ?s = "snd (init InitOk (sqliteStorage
      [\<lparr>key = ''a'', val = ''x'', created_at = 0, updated_at = 5\<rparr>]))"
  have h: "ensureReady ?s = Inr ()"
    by (simp add: adapter_defs)
  have "fst (getAllKeys False ?s) = Inr [''a'']" "fst (getStorageSize False ?s) = Inr 1"
    by (simp_all add: adapter_defs)
  with C10_reads_swallow_faults [OF h] h show ?thesis
    by simp
qed

end
